theory Spec2Isabelle
  imports Main
begin

section \<open>The PsyNeuLink Scheduler (PsyNeuLink/scheduling/Scheduler.py)\<close>

text \<open>
  A shallow embedding of \<^verbatim>\<open>Scheduler\<close>: the counters, the consideration queue and the
  generator \<^verbatim>\<open>Scheduler.run\<close>.

  Conventions of the embedding.
  \<^item> Every Python dict of the Scheduler is keyed by exactly \<^verbatim>\<open>self.nodes\<close> (or by the
    members of \<^verbatim>\<open>TimeScale\<close>); it is a total function here, a loop over its keys is a
    \<open>fold\<close> over the list of keys, and the one place where the code can index such a dict
    with a key that is not a node is an explicit \<open>KeyError\<close> branch.
  \<^item> A Python set that the code iterates (a consideration set) is the list of its members
    in iteration order; the set built by guarded \<^verbatim>\<open>add\<close> calls (\<^verbatim>\<open>cur_time_step_exec\<close>) is
    the list of its members in insertion order.
  \<^item> Exceptions are values of \<open>error\<close>; a function that can raise returns \<open>error + 'a\<close>.
  \<^item> The generator \<^verbatim>\<open>run\<close> is the list of the values it yields, together with the final
    state and the returned value; the unbounded \<^verbatim>\<open>while\<close> over PASSes takes fuel (one unit
    per PASS) and returns \<open>None\<close> when the fuel does not suffice.
\<close>

subsection \<open>TimeScale, errors\<close>

text \<open>\<^verbatim>\<open>PsyNeuLink.Globals.TimeScale\<close> is imported by the Scheduler; its members are
  those the specification lists, finest to coarsest.\<close>

datatype TimeScale = TIME_STEP | PASS | TRIAL | RUN | LIFE

definition all_TimeScale :: "TimeScale list" where
  "all_TimeScale = [TIME_STEP, PASS, TRIAL, RUN, LIFE]"

datatype error = SchedulerError | KeyError | AttributeError | CyclicGraphError

subsection \<open>The counters\<close>

text \<open>The attributes of the Scheduler that a Condition reads through
  \<^verbatim>\<open>self.scheduler\<close>: \<^verbatim>\<open>nodes\<close>, \<^verbatim>\<open>times\<close>, \<^verbatim>\<open>counts_total\<close>, \<^verbatim>\<open>counts_useable\<close>.\<close>

record 'n counts =
  nodes :: "'n list"
  times :: "TimeScale \<Rightarrow> TimeScale \<Rightarrow> nat"
  counts_total :: "TimeScale \<Rightarrow> 'n \<Rightarrow> nat"
  counts_useable :: "'n \<Rightarrow> 'n \<Rightarrow> nat"

text \<open>The keys of a dict built by a comprehension over \<^verbatim>\<open>self.nodes\<close>, in iteration
  order (first occurrences).\<close>

definition node_keys :: "('n, 'z) counts_scheme \<Rightarrow> 'n list" where
  "node_keys c = rev (remdups (rev (nodes c)))"

text \<open>\<^verbatim>\<open>_init_counts\<close>.\<close>

definition init_counts :: "'n list \<Rightarrow> 'n counts" where
  "init_counts ns =
     \<lparr> nodes = ns,
       times = (\<lambda>p q. 0),
       counts_total = (\<lambda>ts n. 0),
       counts_useable = (\<lambda>node n. 0) \<rparr>"

text \<open>\<^verbatim>\<open>_reset_count(self.counts_total, time_scale)\<close>:
  \<^verbatim>\<open>for c in count[time_scale]: count[time_scale][c] = 0\<close>.\<close>

definition reset_count :: "TimeScale \<Rightarrow> 'n counts \<Rightarrow> 'n counts" where
  "reset_count time_scale c =
     c\<lparr>counts_total :=
         fold (\<lambda>k ct. ct(time_scale := (ct time_scale)(k := 0))) (node_keys c) (counts_total c)\<rparr>"

text \<open>\<^verbatim>\<open>_increment_time\<close>: \<^verbatim>\<open>for ts in TimeScale: self.times[ts][time_scale] += 1\<close>.\<close>

definition increment_time :: "TimeScale \<Rightarrow> 'n counts \<Rightarrow> 'n counts" where
  "increment_time time_scale c =
     c\<lparr>times :=
         fold (\<lambda>ts t. t(ts := (t ts)(time_scale := t ts time_scale + 1))) all_TimeScale (times c)\<rparr>"

text \<open>\<^verbatim>\<open>_reset_time\<close>: \<^verbatim>\<open>for ts in TimeScale: self.times[time_scale][ts] = 0\<close>.\<close>

definition reset_time :: "TimeScale \<Rightarrow> 'n counts \<Rightarrow> 'n counts" where
  "reset_time time_scale c =
     c\<lparr>times :=
         fold (\<lambda>ts t. t(time_scale := (t time_scale)(ts := 0))) all_TimeScale (times c)\<rparr>"

text \<open>The bookkeeping of \<^verbatim>\<open>run\<close> for a node that has just been added to the time step
  (the three \<^verbatim>\<open>for\<close> loops after \<^verbatim>\<open>cur_consideration_set_has_changed = True\<close>; the
  specification calls it \<^verbatim>\<open>record_execution\<close>).  \<^verbatim>\<open>self.counts_total[ts][current_node] += 1\<close>
  raises \<^verbatim>\<open>KeyError\<close> when the node is not one of \<^verbatim>\<open>self.nodes\<close>.\<close>

definition record_execution :: "'n \<Rightarrow> 'n counts \<Rightarrow> error + 'n counts" where
  "record_execution current_node c =
     (if current_node \<notin> set (nodes c) then Inl KeyError
      else
        let ct = fold (\<lambda>ts ct. ct(ts := (ct ts)(current_node := ct ts current_node + 1)))
                   all_TimeScale (counts_total c);
            cu1 = fold (\<lambda>n cu. cu(n := (cu n)(current_node := 0)))
                   (node_keys c) (counts_useable c);
            cu2 = fold (\<lambda>n cu. cu(current_node := (cu current_node)(n := cu current_node n + 1)))
                   (node_keys c) cu1
        in Inr (c\<lparr>counts_total := ct, counts_useable := cu2\<rparr>))"

subsection \<open>Facts about the counters\<close>

lemma set_node_keys: "set (node_keys c) = set (nodes c)"
  by (simp add: node_keys_def)

lemma distinct_node_keys: "distinct (node_keys c)"
  by (simp add: node_keys_def)

lemma all_TimeScale_complete: "ts \<in> set all_TimeScale"
  by (cases ts) (simp_all add: all_TimeScale_def)

lemma distinct_all_TimeScale: "distinct all_TimeScale"
  by (simp add: all_TimeScale_def)

lemma fold_bump_total:
  "distinct tss \<Longrightarrow>
   fold (\<lambda>ts ct. ct(ts := (ct ts)(x := Suc (ct ts x)))) tss ct ts n =
     (if ts \<in> set tss \<and> n = x then ct ts n + 1 else ct ts n)"
  by (induction tss arbitrary: ct) auto

lemma fold_zero_column:
  "fold (\<lambda>n cu. cu(n := (cu n)(x := 0))) ks cu a b =
     (if a \<in> set ks \<and> b = x then 0 else cu a b)"
  by (induction ks arbitrary: cu) auto

lemma fold_bump_row:
  "distinct ks \<Longrightarrow>
   fold (\<lambda>n cu. cu(x := (cu x)(n := Suc (cu x n)))) ks cu a b =
     (if a = x \<and> b \<in> set ks then cu a b + 1 else cu a b)"
  by (induction ks arbitrary: cu) auto

lemma fold_zero_total:
  "fold (\<lambda>k ct. ct(time_scale := (ct time_scale)(k := 0))) ks ct ts n =
     (if ts = time_scale \<and> n \<in> set ks then 0 else ct ts n)"
  by (induction ks arbitrary: ct) auto

lemma record_execution_Inr:
  "record_execution x c = Inr c' \<Longrightarrow> x \<in> set (nodes c)"
  by (simp add: record_execution_def split: if_splits)

lemma record_execution_total:
  "record_execution x c = Inr c' \<Longrightarrow>
   counts_total c' ts n = (if n = x then counts_total c ts n + 1 else counts_total c ts n)"
  by (auto simp: record_execution_def Let_def fold_bump_total distinct_all_TimeScale
        all_TimeScale_complete split: if_splits)

lemma record_execution_useable:
  "record_execution x c = Inr c' \<Longrightarrow>
   counts_useable c' a b =
     (if a = x then (if b = x then 1 else if b \<in> set (nodes c) then counts_useable c x b + 1
                     else counts_useable c x b)
      else if b = x \<and> a \<in> set (nodes c) then 0 else counts_useable c a b)"
  by (auto simp: record_execution_def Let_def fold_bump_row fold_zero_column
        distinct_node_keys set_node_keys split: if_splits)

lemma record_execution_frame:
  "record_execution x c = Inr c' \<Longrightarrow> nodes c' = nodes c \<and> times c' = times c"
  by (auto simp: record_execution_def Let_def split: if_splits)


subsection \<open>Conditions\<close>

text \<open>Modelled from the spec: \<^verbatim>\<open>PsyNeuLink/scheduling/condition.py\<close> (the classes
  \<^verbatim>\<open>Condition\<close> and \<^verbatim>\<open>ConditionSet\<close>) is not among the sources.  A Condition is a
  predicate over the Scheduler's counters, bound to an owner node (a termination Condition
  has no owner); the primitives and their meaning are those of the specification's data
  model: \<^verbatim>\<open>Always\<close>; \<^verbatim>\<open>AtPass(n)\<close>, the PASS count within the TRIAL equals n;
  \<^verbatim>\<open>EveryNCalls(other, n)\<close>, \<^verbatim>\<open>counts_useable[other][owner] >= n\<close>;
  \<^verbatim>\<open>AfterNCalls(other, n, scale)\<close>, \<^verbatim>\<open>counts_total[scale][other] >= n\<close>;
  \<^verbatim>\<open>AllHaveRun(scale)\<close>, every node has \<^verbatim>\<open>counts_total[scale][node] >= 1\<close>;
  \<^verbatim>\<open>While\<close>, an arbitrary boolean function; and the combinators All, Any, Not.\<close>

datatype 'n condition =
    Always
  | AtPass nat
  | EveryNCalls 'n nat
  | AfterNCalls 'n nat TimeScale
  | AllHaveRun TimeScale
  | While "'n counts \<Rightarrow> bool"
  | All_cond "'n condition list"
  | Any_cond "'n condition list"
  | Not_cond "'n condition"

fun is_satisfied :: "'n counts \<Rightarrow> 'n option \<Rightarrow> 'n condition \<Rightarrow> bool" where
  "is_satisfied c owner Always = True"
| "is_satisfied c owner (AtPass n) = (times c TRIAL PASS = n)"
| "is_satisfied c owner (EveryNCalls other n) =
     (case owner of None \<Rightarrow> False | Some ow \<Rightarrow> counts_useable c other ow \<ge> n)"
| "is_satisfied c owner (AfterNCalls other n scale) = (counts_total c scale other \<ge> n)"
| "is_satisfied c owner (AllHaveRun scale) =
     list_all (\<lambda>node. counts_total c scale node \<ge> 1) (nodes c)"
| "is_satisfied c owner (While f) = f c"
| "is_satisfied c owner (All_cond cs) = list_all (is_satisfied c owner) cs"
| "is_satisfied c owner (Any_cond cs) = list_ex (is_satisfied c owner) cs"
| "is_satisfied c owner (Not_cond x) = (\<not> is_satisfied c owner x)"

subsection \<open>The Scheduler\<close>

record 'n scheduler =
  condition_set :: "'n \<rightharpoonup> 'n condition"
  execution_list :: "'n list list"
  consideration_queue :: "'n list list"
  termination_conds :: "(TimeScale \<rightharpoonup> 'n condition option) option"
  counters :: "'n counts"

text \<open>\<^verbatim>\<open>_validate_condition_set\<close>: every node without a Condition gets \<^verbatim>\<open>Always()\<close>.\<close>

definition validate_condition_set :: "'n scheduler \<Rightarrow> 'n scheduler" where
  "validate_condition_set s =
     s\<lparr>condition_set :=
         fold (\<lambda>node cs. if cs node = None then cs(node \<mapsto> Always) else cs)
           (nodes (counters s)) (condition_set s)\<rparr>"

text \<open>\<^verbatim>\<open>_validate_termination\<close>.  \<^verbatim>\<open>termination_conds\<close> is \<^verbatim>\<open>None\<close> or a dict from
  TimeScale to a Condition or \<^verbatim>\<open>None\<close>.  The loop \<^verbatim>\<open>for tc in self.termination_conds\<close> runs
  over the keys of the dict; binding \<^verbatim>\<open>.scheduler = self\<close> has no counterpart here, since
  \<open>is_satisfied\<close> is given the counters.  \<^verbatim>\<open>AllHaveRun()\<close> is \<^verbatim>\<open>AllHaveRun\<close> at its default
  scale, the TRIAL.\<close>

fun validate_termination_loop ::
  "(TimeScale \<rightharpoonup> 'n condition option) \<Rightarrow> TimeScale list \<Rightarrow> error + unit" where
  "validate_termination_loop d [] = Inr ()"
| "validate_termination_loop d (tc # tcs) =
     (case d tc of
        None \<Rightarrow> validate_termination_loop d tcs
      | Some None \<Rightarrow>
          if tc \<in> set [TRIAL] then Inl SchedulerError else validate_termination_loop d tcs
      | Some (Some cond) \<Rightarrow> validate_termination_loop d tcs)"

definition validate_termination :: "'n scheduler \<Rightarrow> error + 'n scheduler" where
  "validate_termination s =
     (let d = (case termination_conds s of
                 None \<Rightarrow> (\<lambda>ts. Some (Some (AllHaveRun TRIAL)))
               | Some d \<Rightarrow> d)
      in case validate_termination_loop d (filter (\<lambda>ts. d ts \<noteq> None) all_TimeScale) of
           Inl e \<Rightarrow> Inl e
         | Inr u \<Rightarrow> Inr (s\<lparr>termination_conds := Some d\<rparr>))"

definition validate_run_state :: "'n scheduler \<Rightarrow> error + 'n scheduler" where
  "validate_run_state s = validate_termination (validate_condition_set s)"

subsection \<open>The scan of a consideration set\<close>

text \<open>The body of \<^verbatim>\<open>for current_node in cur_consideration_set\<close>.  The loop state is
  the counters, \<^verbatim>\<open>cur_time_step_exec\<close>, \<^verbatim>\<open>execution_list_has_changed\<close> and
  \<^verbatim>\<open>cur_consideration_set_has_changed\<close>.  \<^verbatim>\<open>self.condition_set.conditions[current_node]\<close>
  raises \<^verbatim>\<open>KeyError\<close> for a node without a Condition.\<close>

type_synonym 'n scan_state = "'n counts \<times> 'n list \<times> bool \<times> bool"

fun consider_node ::
  "('n \<rightharpoonup> 'n condition) \<Rightarrow> 'n \<Rightarrow> 'n scan_state \<Rightarrow> error + 'n scan_state" where
  "consider_node conds current_node (c, cur_time_step_exec, elhc, cshc) =
     (if current_node \<notin> set cur_time_step_exec then
        (case conds current_node of
           None \<Rightarrow> Inl KeyError
         | Some cond \<Rightarrow>
             if is_satisfied c (Some current_node) cond then
               (case record_execution current_node c of
                  Inl e \<Rightarrow> Inl e
                | Inr c' \<Rightarrow> Inr (c', cur_time_step_exec @ [current_node], True, True))
             else Inr (c, cur_time_step_exec, elhc, cshc))
      else Inr (c, cur_time_step_exec, elhc, cshc))"

fun scan_layer ::
  "('n \<rightharpoonup> 'n condition) \<Rightarrow> 'n list \<Rightarrow> 'n scan_state \<Rightarrow> error + 'n scan_state" where
  "scan_layer conds [] st = Inr st"
| "scan_layer conds (current_node # rest) st =
     (case consider_node conds current_node st of
        Inl e \<Rightarrow> Inl e
      | Inr st' \<Rightarrow> scan_layer conds rest st')"

lemma consider_node_added:
  "consider_node conds x (c, ex, a, b) = Inr (c', ex', a', b') \<Longrightarrow>
   \<exists>added. ex' = ex @ added \<and> set added \<subseteq> {x} - set ex \<and> distinct added \<and>
     a' = (a \<or> added \<noteq> []) \<and> b' = (b \<or> added \<noteq> []) \<and> nodes c' = nodes c \<and>
     set added \<subseteq> set (nodes c)"
  by (auto split: if_splits option.splits sum.splits
        dest: record_execution_frame record_execution_Inr)

lemma scan_layer_added:
  "scan_layer conds xs (c, ex, a, b) = Inr (c', ex', a', b') \<Longrightarrow>
   \<exists>added. ex' = ex @ added \<and> set added \<subseteq> set xs - set ex \<and> distinct added \<and>
     a' = (a \<or> added \<noteq> []) \<and> b' = (b \<or> added \<noteq> []) \<and> nodes c' = nodes c \<and>
     set added \<subseteq> set (nodes c)"
proof (induction xs arbitrary: c ex a b)
  case Nil
  then show ?case by simp
next
  case (Cons x xs)
  from Cons.prems obtain c1 ex1 a1 b1 where
    step: "consider_node conds x (c, ex, a, b) = Inr (c1, ex1, a1, b1)" and
    rest: "scan_layer conds xs (c1, ex1, a1, b1) = Inr (c', ex', a', b')"
    by (auto split: sum.splits)
  from consider_node_added [OF step] obtain ad1 where
    1: "ex1 = ex @ ad1" "set ad1 \<subseteq> {x} - set ex" "distinct ad1"
       "a1 = (a \<or> ad1 \<noteq> [])" "b1 = (b \<or> ad1 \<noteq> [])" "nodes c1 = nodes c"
       "set ad1 \<subseteq> set (nodes c)"
    by blast
  from Cons.IH [OF rest] obtain ad2 where
    2: "ex' = ex1 @ ad2" "set ad2 \<subseteq> set xs - set ex1" "distinct ad2"
       "a' = (a1 \<or> ad2 \<noteq> [])" "b' = (b1 \<or> ad2 \<noteq> [])" "nodes c' = nodes c1"
       "set ad2 \<subseteq> set (nodes c1)"
    by blast
  show ?case
    using 1 2 by (intro exI [of _ "ad1 @ ad2"]) auto
qed

lemma scan_layer_progress:
  assumes "scan_layer conds layer (c, ex, a, False) = Inr (c', ex', a', True)"
  shows "card (set layer - set ex') < card (set layer - set ex)"
proof -
  from scan_layer_added [OF assms] obtain added where
    ad: "ex' = ex @ added" "set added \<subseteq> set layer - set ex" "added \<noteq> []"
    by auto
  then obtain y where "y \<in> set added" by (cases added) auto
  with ad have "y \<in> set layer - set ex" "y \<notin> set layer - set ex'" by auto
  moreover from ad have "set layer - set ex' \<subseteq> set layer - set ex" by auto
  ultimately have "set layer - set ex' \<subset> set layer - set ex" by blast
  then show ?thesis by (intro psubset_card_mono) auto
qed

text \<open>The do-while on \<^verbatim>\<open>cur_consideration_set_has_changed\<close>: the set is scanned until
  a scan adds no node.\<close>

function scan_until_fixed ::
  "('n \<rightharpoonup> 'n condition) \<Rightarrow> 'n list \<Rightarrow> 'n counts \<times> 'n list \<times> bool \<Rightarrow>
     error + 'n counts \<times> 'n list \<times> bool" where
  "scan_until_fixed conds layer (c, ex, elhc) =
     (case scan_layer conds layer (c, ex, elhc, False) of
        Inl e \<Rightarrow> Inl e
      | Inr (c', ex', elhc', cshc) \<Rightarrow>
          if \<not> cshc then Inr (c', ex', elhc')
          else scan_until_fixed conds layer (c', ex', elhc'))"
  by pat_completeness auto
termination
  by (relation "measure (\<lambda>(conds, layer, c, ex, elhc). card (set layer - set ex))")
     (auto dest: scan_layer_progress)

text \<open>The number of full scans the do-while performs (it follows the recursion of
  \<open>scan_until_fixed\<close>; a scan that raises is counted).\<close>

function scan_count ::
  "('n \<rightharpoonup> 'n condition) \<Rightarrow> 'n list \<Rightarrow> 'n counts \<times> 'n list \<times> bool \<Rightarrow> nat" where
  "scan_count conds layer (c, ex, elhc) =
     (case scan_layer conds layer (c, ex, elhc, False) of
        Inl e \<Rightarrow> 1
      | Inr (c', ex', elhc', cshc) \<Rightarrow>
          if \<not> cshc then 1
          else 1 + scan_count conds layer (c', ex', elhc'))"
  by pat_completeness auto
termination
  by (relation "measure (\<lambda>(conds, layer, c, ex, elhc). card (set layer - set ex))")
     (auto dest: scan_layer_progress)


subsection \<open>The walk of the consideration queue, the PASS, the TRIAL\<close>

text \<open>The inner \<^verbatim>\<open>while\<close> of \<^verbatim>\<open>run\<close>, from index \<^verbatim>\<open>cur_index_consideration_queue\<close>
  on: the argument \<open>layers\<close> is the rest of the queue from that index.  The second
  component of the result is the list of the sets yielded, in order.  An element of the
  queue is a list here, so \<^verbatim>\<open>iter(cur_consideration_set)\<close> cannot raise.\<close>

fun walk_layers ::
  "'n condition \<Rightarrow> 'n list list \<Rightarrow> 'n scheduler \<Rightarrow> bool \<Rightarrow>
     error + 'n scheduler \<times> 'n list list \<times> bool" where
  "walk_layers trial_term [] s elhc = Inr (s, [], elhc)"
| "walk_layers trial_term (cur_consideration_set # rest) s elhc =
     (if is_satisfied (counters s) None trial_term then Inr (s, [], elhc)
      else
        (case scan_until_fixed (condition_set s) cur_consideration_set (counters s, [], elhc) of
           Inl e \<Rightarrow> Inl e
         | Inr (c', cur_time_step_exec, elhc') \<Rightarrow>
             if length cur_time_step_exec \<ge> 1 then
               (case walk_layers trial_term rest
                       (s\<lparr>execution_list := execution_list s @ [cur_time_step_exec],
                          counters := increment_time TIME_STEP c'\<rparr>) elhc' of
                  Inl e \<Rightarrow> Inl e
                | Inr (s', ys, b) \<Rightarrow> Inr (s', cur_time_step_exec # ys, b))
             else walk_layers trial_term rest (s\<lparr>counters := c'\<rparr>) elhc'))"

text \<open>One iteration of the outer \<^verbatim>\<open>while\<close>: a PASS.\<close>

definition run_pass ::
  "'n condition \<Rightarrow> 'n scheduler \<Rightarrow> error + 'n scheduler \<times> 'n list list" where
  "run_pass trial_term s =
     (let s1 = s\<lparr>counters := reset_time PASS (reset_count PASS (counters s))\<rparr>
      in case walk_layers trial_term (consideration_queue s1) s1 False of
           Inl e \<Rightarrow> Inl e
         | Inr (s2, ys, execution_list_has_changed) \<Rightarrow>
             let (s3, ys3) =
                   (if \<not> execution_list_has_changed then
                      (s2\<lparr>execution_list := execution_list s2 @ [[]],
                          counters := increment_time TIME_STEP (counters s2)\<rparr>, ys @ [[]])
                    else (s2, ys))
             in Inr (s3\<lparr>counters := increment_time PASS (counters s3)\<rparr>, ys3))"

text \<open>The outer \<^verbatim>\<open>while not self.termination_conds[TimeScale.TRIAL].is_satisfied()\<close>.
  It need not terminate: \<open>fuel\<close> bounds the number of PASSes, and \<open>None\<close> says that the
  loop has not ended within them.\<close>

fun trial_loop ::
  "nat \<Rightarrow> 'n condition \<Rightarrow> 'n scheduler \<Rightarrow> (error + 'n scheduler \<times> 'n list list) option" where
  "trial_loop fuel trial_term s =
     (if is_satisfied (counters s) None trial_term then Some (Inr (s, []))
      else
        (case fuel of
           0 \<Rightarrow> None
         | Suc k \<Rightarrow>
             (case run_pass trial_term s of
                Inl e \<Rightarrow> Some (Inl e)
              | Inr (s', ys) \<Rightarrow>
                  (case trial_loop k trial_term s' of
                     None \<Rightarrow> None
                   | Some (Inl e) \<Rightarrow> Some (Inl e)
                   | Some (Inr (s'', ys')) \<Rightarrow> Some (Inr (s'', ys @ ys'))))))"

text \<open>The statements of \<^verbatim>\<open>run\<close> between validation and the loop.\<close>

definition run_reset :: "'n scheduler \<Rightarrow> 'n scheduler" where
  "run_reset s =
     s\<lparr>counters :=
         reset_time TRIAL (reset_count TRIAL ((counters s)\<lparr>counts_useable := (\<lambda>node n. 0)\<rparr>))\<rparr>"

text \<open>\<^verbatim>\<open>run(termination_conds)\<close>.  The result is the final Scheduler, the list of the
  sets yielded and the value returned when the generator is exhausted.
  \<^verbatim>\<open>self.termination_conds[TimeScale.TRIAL]\<close> raises \<^verbatim>\<open>KeyError\<close> when the dict has no
  TRIAL key, and \<^verbatim>\<open>None.is_satisfied()\<close> would raise \<^verbatim>\<open>AttributeError\<close> (validation
  has excluded it).\<close>

definition run ::
  "nat \<Rightarrow> (TimeScale \<rightharpoonup> 'n condition option) option \<Rightarrow> 'n scheduler \<Rightarrow>
     (error + 'n scheduler \<times> 'n list list \<times> 'n list list) option" where
  "run fuel tconds s =
     (case validate_run_state (s\<lparr>termination_conds := tconds\<rparr>) of
        Inl e \<Rightarrow> Some (Inl e)
      | Inr s1 \<Rightarrow>
          (case Option.bind (termination_conds s1) (\<lambda>d. d TRIAL) of
             None \<Rightarrow> Some (Inl KeyError)
           | Some None \<Rightarrow> Some (Inl AttributeError)
           | Some (Some trial_term) \<Rightarrow>
               (case trial_loop fuel trial_term (run_reset s1) of
                  None \<Rightarrow> None
                | Some (Inl e) \<Rightarrow> Some (Inl e)
                | Some (Inr (s2, ys)) \<Rightarrow>
                    let s3 = s2\<lparr>counters := increment_time TRIAL (counters s2)\<rparr>
                    in Some (Inr (s3, ys, execution_list s3)))))"


subsection \<open>Construction\<close>

text \<open>Modelled from the spec: \<^verbatim>\<open>toposort\<close>, which \<^verbatim>\<open>_init_consideration_queue_from_system\<close>
  calls, is imported from a package that is not among the sources.  It is the
  specification's builder of the consideration queue: from the remaining nodes, extract
  those with no remaining unsatisfied prerequisite, append them as the next layer, remove
  them, and repeat until no node remains; if a round extracts no node while nodes remain,
  fail with \<^verbatim>\<open>CyclicGraphError\<close>.  The dependency graph is a dict from a node to the
  collection of its prerequisites (an association list here, read with \<open>map_of\<close>); its
  node set is its keys and their prerequisites.\<close>

definition prerequisites :: "('n \<times> 'n list) list \<Rightarrow> 'n \<Rightarrow> 'n list" where
  "prerequisites g n = (case map_of g n of None \<Rightarrow> [] | Some ds \<Rightarrow> ds)"

definition graph_nodes :: "('n \<times> 'n list) list \<Rightarrow> 'n list" where
  "graph_nodes g = remdups (map fst g @ concat (map (\<lambda>k. prerequisites g k) (map fst g)))"

lemma length_filter_removed:
  assumes "filter P xs \<noteq> []"
  shows "length (filter (\<lambda>n. n \<notin> set (filter P xs)) xs) < length xs"
proof -
  from assms obtain x where "x \<in> set xs" "P x"
    by (auto simp: filter_empty_conv)
  then show ?thesis
    by (intro length_filter_less [of x]) auto
qed

function toposort_loop :: "('n \<Rightarrow> 'n list) \<Rightarrow> 'n list \<Rightarrow> error + 'n list list" where
  "toposort_loop deps remaining =
     (if remaining = [] then Inr []
      else
        let ready = filter (\<lambda>n. list_all (\<lambda>d. d \<notin> set remaining) (deps n)) remaining
        in if ready = [] then Inl CyclicGraphError
           else
             (case toposort_loop deps (filter (\<lambda>n. n \<notin> set ready) remaining) of
                Inl e \<Rightarrow> Inl e
              | Inr layers \<Rightarrow> Inr (ready # layers)))"
  by pat_completeness auto
termination
  by (relation "measure (\<lambda>(deps, remaining). length remaining)")
     (auto simp del: set_filter intro!: length_filter_removed)

definition toposort :: "('n \<times> 'n list) list \<Rightarrow> error + 'n list list" where
  "toposort g = toposort_loop (prerequisites g) (graph_nodes g)"

text \<open>The index of the layer of a node: the first layer that holds it.\<close>

definition layer_index :: "'n list list \<Rightarrow> 'n \<Rightarrow> nat" where
  "layer_index layers n = length (takeWhile (\<lambda>layer. n \<notin> set layer) layers)"

text \<open>A System, as far as the Scheduler reads it.\<close>

record 'n system =
  executionList :: "'n list"
  executionGraph :: "('n \<times> 'n list) list"

text \<open>\<^verbatim>\<open>_init_consideration_queue_from_system\<close>: each set of the toposort is copied,
  member by member, into a new set.\<close>

definition init_consideration_queue_from_system :: "'n system \<Rightarrow> error + 'n list list" where
  "init_consideration_queue_from_system sys =
     (case toposort (executionGraph sys) of
        Inl e \<Rightarrow> Inl e
      | Inr layers \<Rightarrow>
          Inr (map (\<lambda>dependency_set.
                      fold (\<lambda>d new_set. if d \<in> set new_set then new_set else new_set @ [d])
                        dependency_set [])
                 layers))"

text \<open>\<^verbatim>\<open>Scheduler.__init__(system, condition_set, nodes, toposort_ordering)\<close>.  An
  exception leaves no Scheduler.\<close>

definition Scheduler_init ::
  "'n system option \<Rightarrow> ('n \<rightharpoonup> 'n condition) option \<Rightarrow> 'n list option \<Rightarrow>
     'n list list option \<Rightarrow> error + 'n scheduler" where
  "Scheduler_init sys cset ns toposort_ordering =
     (let s0 = \<lparr> condition_set = (case cset of None \<Rightarrow> Map.empty | Some cs \<Rightarrow> cs),
                 execution_list = [],
                 consideration_queue = [],
                 termination_conds = None,
                 counters = init_counts [] \<rparr>
      in case sys of
           Some sy \<Rightarrow>
             (case init_consideration_queue_from_system sy of
                Inl e \<Rightarrow> Inl e
              | Inr q \<Rightarrow>
                  Inr (s0\<lparr>consideration_queue := q, counters := init_counts (executionList sy)\<rparr>))
         | None \<Rightarrow>
             (case ns of
                Some nodes' \<Rightarrow>
                  (case toposort_ordering of
                     None \<Rightarrow> Inl SchedulerError
                   | Some layers \<Rightarrow>
                       Inr (s0\<lparr>consideration_queue := layers, counters := init_counts nodes'\<rparr>))
              | None \<Rightarrow> Inl SchedulerError))"

text \<open>\<^verbatim>\<open>add_condition(owner, condition)\<close> hands over to the ConditionSet, which binds the
  Condition to its owner.\<close>

definition add_condition :: "'n \<Rightarrow> 'n condition \<Rightarrow> 'n scheduler \<Rightarrow> 'n scheduler" where
  "add_condition owner cond s = s\<lparr>condition_set := (condition_set s)(owner \<mapsto> cond)\<rparr>"

text \<open>The nodes of the examples.\<close>

datatype node = A | B | C

text \<open>The recursive equations of the loops are unfolded on demand only.\<close>

declare trial_loop.simps [simp del] scan_until_fixed.simps [simp del]
  scan_count.simps [simp del] toposort_loop.simps [simp del]

subsection \<open>More fuel does not change a run that has ended\<close>

lemma trial_loop_mono:
  "trial_loop k t s = Some r \<Longrightarrow> trial_loop (k + j) t s = Some r"
proof (induction k arbitrary: s r)
  case 0
  then show ?case
    by (simp add: trial_loop.simps [of 0] trial_loop.simps [of j] split: if_splits)
next
  case (Suc k)
  note unf = trial_loop.simps [of "Suc k" t s] trial_loop.simps [of "Suc (k + j)" t s]
  show ?case
  proof (cases "run_pass t s")
    case (Inl e)
    with Suc.prems show ?thesis
      by (auto simp: unf split: if_splits)
  next
    case (Inr p)
    obtain s' ys where p: "p = (s', ys)" by (cases p)
    show ?thesis
    proof (cases "trial_loop k t s'")
      case None
      with Suc.prems Inr p show ?thesis
        by (auto simp: unf split: if_splits)
    next
      case (Some r')
      from Suc.IH [OF Some] Some Suc.prems Inr p show ?thesis
        by (auto simp: unf split: if_splits)
    qed
  qed
qed

lemma run_fuel_mono: "run k tc s = Some r \<Longrightarrow> run (k + j) tc s = Some r"
  unfolding run_def
  by (auto split: sum.splits option.splits simp: trial_loop_mono)

lemmas run_eval =
  init_counts_def record_execution_def node_keys_def all_TimeScale_def
  validate_run_state_def validate_condition_set_def validate_termination_def run_reset_def
  reset_time_def reset_count_def increment_time_def run_pass_def run_def Scheduler_init_def
  add_condition_def trial_loop.simps scan_until_fixed.simps

subsection \<open>Facts about the scan\<close>

lemma increment_time_simps:
  "times (increment_time q c) ts q' = (if q' = q then times c ts q' + 1 else times c ts q')"
  "nodes (increment_time q c) = nodes c"
  "counts_total (increment_time q c) = counts_total c"
  "counts_useable (increment_time q c) = counts_useable c"
  by (cases ts; simp add: increment_time_def all_TimeScale_def)+

lemma reset_time_simps:
  "times (reset_time q c) p ts = (if p = q then 0 else times c p ts)"
  "nodes (reset_time q c) = nodes c"
  "counts_total (reset_time q c) = counts_total c"
  "counts_useable (reset_time q c) = counts_useable c"
  by (cases ts; simp add: reset_time_def all_TimeScale_def)+

lemma reset_count_simps:
  "counts_total (reset_count q c) ts n =
     (if ts = q \<and> n \<in> set (nodes c) then 0 else counts_total c ts n)"
  "nodes (reset_count q c) = nodes c"
  "times (reset_count q c) = times c"
  "counts_useable (reset_count q c) = counts_useable c"
  by (simp_all add: reset_count_def fold_zero_total set_node_keys)

lemma consider_node_counts:
  "consider_node conds x (c, ex, a, b) = Inr (c', ex', a', b') \<Longrightarrow>
   times c' = times c \<and>
   counts_total c' ts n + count_list ex n = counts_total c ts n + count_list ex' n"
  by (auto split: if_splits option.splits sum.splits
        simp: record_execution_total dest: record_execution_frame)

lemma scan_layer_counts:
  "scan_layer conds xs (c, ex, a, b) = Inr (c', ex', a', b') \<Longrightarrow>
   times c' = times c \<and>
   counts_total c' ts n + count_list ex n = counts_total c ts n + count_list ex' n"
proof (induction xs arbitrary: c ex a b)
  case Nil
  then show ?case by simp
next
  case (Cons x xs)
  from Cons.prems obtain c1 ex1 a1 b1 where
    step: "consider_node conds x (c, ex, a, b) = Inr (c1, ex1, a1, b1)" and
    rest: "scan_layer conds xs (c1, ex1, a1, b1) = Inr (c', ex', a', b')"
    by (auto split: sum.splits)
  from consider_node_counts [OF step, of ts n] Cons.IH [OF rest] show ?case
    by simp
qed

lemma consider_node_unchanged:
  "consider_node conds x (c, ex, a, b) = Inr (c', ex, a', b') \<Longrightarrow> c' = c \<and> a' = a \<and> b' = b"
  by (auto split: if_splits option.splits sum.splits)

lemma scan_layer_unchanged:
  "scan_layer conds xs (c, ex, a, b) = Inr (c', ex, a', b') \<Longrightarrow> c' = c \<and> a' = a \<and> b' = b"
proof (induction xs arbitrary: c a b)
  case Nil
  then show ?case by simp
next
  case (Cons x xs)
  from Cons.prems obtain c1 ex1 a1 b1 where
    step: "consider_node conds x (c, ex, a, b) = Inr (c1, ex1, a1, b1)" and
    rest: "scan_layer conds xs (c1, ex1, a1, b1) = Inr (c', ex, a', b')"
    by (auto split: sum.splits)
  from consider_node_added [OF step] scan_layer_added [OF rest] have "ex1 = ex"
    by auto
  with step have s1: "c1 = c \<and> a1 = a \<and> b1 = b"
    using consider_node_unchanged [of conds x c ex a b c1 a1 b1] by simp
  from Cons.IH [of c1 a1 b1] rest \<open>ex1 = ex\<close> have "c' = c1 \<and> a' = a1 \<and> b' = b1"
    by simp
  with s1 show ?case by simp
qed

text \<open>What the do-while returns.\<close>

lemma scan_until_fixed_result:
  "scan_until_fixed conds layer (c, ex, elhc) = Inr (c', ex', elhc') \<Longrightarrow>
   (\<exists>added. ex' = ex @ added \<and> set added \<subseteq> set layer - set ex \<and> distinct added \<and>
      elhc' = (elhc \<or> added \<noteq> []) \<and> set added \<subseteq> set (nodes c)) \<and>
   nodes c' = nodes c \<and> times c' = times c \<and>
   (\<forall>ts n. counts_total c' ts n + count_list ex n = counts_total c ts n + count_list ex' n) \<and>
   scan_layer conds layer (c', ex', elhc', False) = Inr (c', ex', elhc', False)"
proof (induction conds layer "(c, ex, elhc)" arbitrary: c ex elhc rule: scan_until_fixed.induct)
  case (1 conds layer c ex elhc)
  from "1.prems" obtain c1 ex1 a1 b1 where
    scan: "scan_layer conds layer (c, ex, elhc, False) = Inr (c1, ex1, a1, b1)"
    by (auto simp: scan_until_fixed.simps [of conds layer c ex elhc] split: sum.splits)
  from scan_layer_added [OF scan] obtain ad1 where
    ad1: "ex1 = ex @ ad1" "set ad1 \<subseteq> set layer - set ex" "distinct ad1"
         "a1 = (elhc \<or> ad1 \<noteq> [])" "b1 = (ad1 \<noteq> [])" "nodes c1 = nodes c"
         "set ad1 \<subseteq> set (nodes c)"
    by auto
  note cnt1 = scan_layer_counts [OF scan]
  show ?case
  proof (cases b1)
    case False
    with "1.prems" scan have eq: "c' = c1" "ex' = ex1" "elhc' = a1"
      by (simp_all add: scan_until_fixed.simps [of conds layer c ex elhc])
    from False ad1 have "ex1 = ex" by simp
    with scan scan_layer_unchanged [of conds layer c ex elhc False c1 a1 b1]
    have "c1 = c" "a1 = elhc" by simp_all
    with scan eq ad1 False cnt1 \<open>ex1 = ex\<close> show ?thesis
      by auto
  next
    case True
    with "1.prems" scan have rest: "scan_until_fixed conds layer (c1, ex1, a1) = Inr (c', ex', elhc')"
      by (simp add: scan_until_fixed.simps [of conds layer c ex elhc])
    have IH: "(\<exists>added. ex' = ex1 @ added \<and> set added \<subseteq> set layer - set ex1 \<and> distinct added \<and>
      elhc' = (a1 \<or> added \<noteq> []) \<and> set added \<subseteq> set (nodes c1)) \<and>
      nodes c' = nodes c1 \<and> times c' = times c1 \<and>
      (\<forall>ts n. counts_total c' ts n + count_list ex1 n = counts_total c1 ts n + count_list ex' n) \<and>
      scan_layer conds layer (c', ex', elhc', False) = Inr (c', ex', elhc', False)"
      by (rule "1.hyps" [OF scan _ _ _ _ rest]) (use True in auto)
    then obtain ad2 where
      ad2: "ex' = ex1 @ ad2" "set ad2 \<subseteq> set layer - set ex1" "distinct ad2"
           "elhc' = (a1 \<or> ad2 \<noteq> [])" "set ad2 \<subseteq> set (nodes c1)"
      by blast
    have "ex' = ex @ (ad1 @ ad2) \<and> set (ad1 @ ad2) \<subseteq> set layer - set ex \<and> distinct (ad1 @ ad2) \<and>
      elhc' = (elhc \<or> ad1 @ ad2 \<noteq> []) \<and> set (ad1 @ ad2) \<subseteq> set (nodes c)"
      using ad1 ad2 by auto
    then have "\<exists>added. ex' = ex @ added \<and> set added \<subseteq> set layer - set ex \<and> distinct added \<and>
      elhc' = (elhc \<or> added \<noteq> []) \<and> set added \<subseteq> set (nodes c)"
      by blast
    moreover have "\<forall>ts n. counts_total c' ts n + count_list ex n = counts_total c ts n + count_list ex' n"
    proof (intro allI)
      fix ts n
      from IH have "counts_total c' ts n + count_list ex1 n = counts_total c1 ts n + count_list ex' n"
        by blast
      with cnt1 [of ts n] show "counts_total c' ts n + count_list ex n = counts_total c ts n + count_list ex' n"
        by simp
    qed
    ultimately show ?thesis
      using IH ad1 cnt1 by simp
  qed
qed


lemma scan_count_bound:
  "scan_count conds layer (c, ex, elhc) \<le> card (set layer - set ex) + 1"
proof (induction conds layer "(c, ex, elhc)" arbitrary: c ex elhc rule: scan_count.induct)
  case (1 conds layer c ex elhc)
  show ?case
  proof (cases "scan_layer conds layer (c, ex, elhc, False)")
    case (Inl e)
    then show ?thesis by (simp add: scan_count.simps)
  next
    case (Inr st)
    obtain c' ex' elhc' cshc where st: "st = (c', ex', elhc', cshc)" by (cases st)
    show ?thesis
    proof (cases cshc)
      case False
      then show ?thesis using Inr st by (simp add: scan_count.simps)
    next
      case True
      have IH: "scan_count conds layer (c', ex', elhc') \<le> card (set layer - set ex') + 1"
        by (rule "1.hyps") (use Inr st True in auto)
      have "card (set layer - set ex') < card (set layer - set ex)"
        using Inr st True by (auto intro: scan_layer_progress)
      with IH show ?thesis
        using Inr st True by (simp add: scan_count.simps)
    qed
  qed
qed

lemma distinct_count_list:
  "distinct xs \<Longrightarrow> count_list xs x = (if x \<in> set xs then 1 else 0)"
  by (induction xs) auto

subsection \<open>Facts about the walk, the PASS and the TRIAL\<close>

lemma walk_layers_result:
  "walk_layers t layers s b = Inr (s', ys, b') \<Longrightarrow>
   execution_list s' = execution_list s @ ys \<and> [] \<notin> set ys \<and> b' = (b \<or> ys \<noteq> []) \<and>
   condition_set s' = condition_set s \<and> consideration_queue s' = consideration_queue s \<and>
   termination_conds s' = termination_conds s \<and>
   nodes (counters s') = nodes (counters s) \<and>
   set (concat ys) \<subseteq> set (nodes (counters s)) \<and>
   (\<forall>ts n. counts_total (counters s') ts n =
       counts_total (counters s) ts n + count_list (concat ys) n) \<and>
   (\<forall>ts q. times (counters s') ts q =
       (if q = TIME_STEP then times (counters s) ts q + length ys else times (counters s) ts q))"
proof (induction layers arbitrary: s b ys)
  case Nil
  then show ?case by auto
next
  case (Cons layer rest)
  show ?case
  proof (cases "is_satisfied (counters s) None t")
    case True
    with Cons.prems show ?thesis by auto
  next
    case False
    with Cons.prems obtain c1 ex1 a1 where
      scan: "scan_until_fixed (condition_set s) layer (counters s, [], b) = Inr (c1, ex1, a1)"
      by (auto split: sum.splits)
    from scan_until_fixed_result [OF scan] have
      r1: "set ex1 \<subseteq> set (nodes (counters s))" "a1 = (b \<or> ex1 \<noteq> [])"
          "nodes c1 = nodes (counters s)" "times c1 = times (counters s)"
          "\<forall>ts n. counts_total c1 ts n = counts_total (counters s) ts n + count_list ex1 n"
      by auto
    show ?thesis
    proof (cases "ex1 = []")
      case True
      with Cons.prems False scan have
        w: "walk_layers t rest (s\<lparr>counters := c1\<rparr>) a1 = Inr (s', ys, b')"
        by simp
      from Cons.IH [OF w] r1 True show ?thesis
        by simp
    next
      case ne: False
      then have len: "length ex1 \<ge> 1" by (cases ex1) auto
      let ?s1 = "s\<lparr>execution_list := execution_list s @ [ex1],
                    counters := increment_time TIME_STEP c1\<rparr>"
      from Cons.prems False scan len obtain ys1 where
        w: "walk_layers t rest ?s1 a1 = Inr (s', ys1, b')" and ys: "ys = ex1 # ys1"
        by (auto split: sum.splits)
      from Cons.IH [OF w] r1 ne ys show ?thesis
        by (simp add: increment_time_simps)
    qed
  qed
qed

lemma run_pass_result:
  assumes "run_pass t s = Inr (s', ys)"
  shows "execution_list s' = execution_list s @ ys"
    and "ys \<noteq> []"
    and "[] \<in> set ys \<Longrightarrow> ys = [[]]"
    and "condition_set s' = condition_set s \<and> consideration_queue s' = consideration_queue s \<and>
         termination_conds s' = termination_conds s \<and> nodes (counters s') = nodes (counters s)"
    and "set (concat ys) \<subseteq> set (nodes (counters s))"
    and "counts_total (counters s') ts n =
           (if ts = PASS \<and> n \<in> set (nodes (counters s)) then 0
            else counts_total (counters s) ts n) + count_list (concat ys) n"
    and "times (counters s') p q =
           (if p = PASS then 0 else times (counters s) p q) +
           (if q = TIME_STEP then length ys else if q = PASS then 1 else 0)"
proof -
  let ?s1 = "s\<lparr>counters := reset_time PASS (reset_count PASS (counters s))\<rparr>"
  from assms obtain s2 ys2 b2 where
    w: "walk_layers t (consideration_queue s) ?s1 False = Inr (s2, ys2, b2)"
    by (auto simp: run_pass_def Let_def split: sum.splits)
  note r = walk_layers_result [OF w]
  from r have b2: "b2 = (ys2 \<noteq> [])" and el: "execution_list s2 = execution_list s @ ys2"
    and ne: "[] \<notin> set ys2"
    and fr: "condition_set s2 = condition_set s" "consideration_queue s2 = consideration_queue s"
      "termination_conds s2 = termination_conds s" "nodes (counters s2) = nodes (counters s)"
    and sub: "set (concat ys2) \<subseteq> set (nodes (counters s))"
    by (simp_all add: reset_time_simps reset_count_simps)
  from r have ct: "counts_total (counters s2) ts n =
      (if ts = PASS \<and> n \<in> set (nodes (counters s)) then 0
       else counts_total (counters s) ts n) + count_list (concat ys2) n"
    by (simp add: reset_time_simps reset_count_simps)
  from r have tm: "times (counters s2) p q =
      (if p = PASS then 0 else times (counters s) p q) + (if q = TIME_STEP then length ys2 else 0)"
    by (simp add: reset_time_simps reset_count_simps)
  have res: "(ys2 = [] \<and> ys = [[]] \<and>
       s' = s2\<lparr>execution_list := execution_list s2 @ [[]],
               counters := increment_time PASS (increment_time TIME_STEP (counters s2))\<rparr>) \<or>
     (ys2 \<noteq> [] \<and> ys = ys2 \<and> s' = s2\<lparr>counters := increment_time PASS (counters s2)\<rparr>)"
    using assms w b2 by (auto simp: run_pass_def Let_def)
  show "execution_list s' = execution_list s @ ys"
    using res el by auto
  show "ys \<noteq> []"
    using res by auto
  show "[] \<in> set ys \<Longrightarrow> ys = [[]]"
    using res ne by auto
  show "condition_set s' = condition_set s \<and> consideration_queue s' = consideration_queue s \<and>
         termination_conds s' = termination_conds s \<and> nodes (counters s') = nodes (counters s)"
    using res fr by (auto simp: increment_time_simps)
  show "set (concat ys) \<subseteq> set (nodes (counters s))"
    using res sub by auto
  show "counts_total (counters s') ts n =
           (if ts = PASS \<and> n \<in> set (nodes (counters s)) then 0
            else counts_total (counters s) ts n) + count_list (concat ys) n"
    using res ct by (auto simp: increment_time_simps)
  show "times (counters s') p q =
           (if p = PASS then 0 else times (counters s) p q) +
           (if q = TIME_STEP then length ys else if q = PASS then 1 else 0)"
    using res tm by (auto simp: increment_time_simps)
qed





lemma validate_termination_loop_eq:
  "validate_termination_loop d tcs =
     (if TRIAL \<in> set tcs \<and> d TRIAL = Some None then Inl SchedulerError else Inr ())"
  by (induction tcs) (auto split: option.splits)

subsection \<open>Facts about the layering\<close>

lemma layer_index_Cons:
  "layer_index (l # ls) n = (if n \<in> set l then 0 else Suc (layer_index ls n))"
  by (simp add: layer_index_def)

lemma layer_index_le:
  "i < length ls \<Longrightarrow> n \<in> set (ls ! i) \<Longrightarrow> layer_index ls n \<le> i"
proof (induction ls arbitrary: i)
  case Nil
  then show ?case by simp
next
  case (Cons l ls)
  then show ?case
    by (cases i) (auto simp: layer_index_Cons)
qed

lemma layer_index_mem:
  "n \<in> set (concat ls) \<Longrightarrow> layer_index ls n < length ls \<and> n \<in> set (ls ! layer_index ls n)"
  by (induction ls) (auto simp: layer_index_Cons)

lemma distinct_concat_unique:
  "distinct (concat ls) \<Longrightarrow> i < length ls \<Longrightarrow> j < length ls \<Longrightarrow>
   n \<in> set (ls ! i) \<Longrightarrow> n \<in> set (ls ! j) \<Longrightarrow> i = j"
proof (induction ls arbitrary: i j)
  case Nil
  then show ?case by simp
next
  case (Cons l ls)
  show ?case
  proof (cases i)
    case 0
    with Cons.prems show ?thesis
      by (cases j) (auto dest: nth_mem)
  next
    case (Suc i')
    with Cons.prems show ?thesis
      by (cases j) (auto dest: nth_mem intro: Cons.IH)
  qed
qed

lemma toposort_loop_error:
  "toposort_loop deps remaining = Inl e \<Longrightarrow> e = CyclicGraphError"
proof (induction deps remaining rule: toposort_loop.induct)
  case (1 deps remaining)
  let ?ready = "filter (\<lambda>n. list_all (\<lambda>d. d \<notin> set remaining) (deps n)) remaining"
  show ?case
  proof (cases "remaining = [] \<or> ?ready = []")
    case True
    with "1.prems" show ?thesis
      by (auto simp: toposort_loop.simps [of deps remaining] Let_def split: if_splits)
  next
    case False
    with "1.prems" have "toposort_loop deps (filter (\<lambda>n. n \<notin> set ?ready) remaining) = Inl e"
      by (auto simp: toposort_loop.simps [of deps remaining] Let_def split: if_splits sum.splits)
    with False "1.IH" [of ?ready] show ?thesis
      by auto
  qed
qed

lemma toposort_loop_sound:
  "toposort_loop deps remaining = Inr ls \<Longrightarrow> distinct remaining \<Longrightarrow>
   distinct (concat ls) \<and> set (concat ls) = set remaining \<and> [] \<notin> set ls \<and>
   (\<forall>j b a. j < length ls \<longrightarrow> b \<in> set (ls ! j) \<longrightarrow> a \<in> set (deps b) \<longrightarrow> a \<in> set remaining \<longrightarrow>
      (\<exists>i<j. a \<in> set (ls ! i)))"
proof (induction deps remaining arbitrary: ls rule: toposort_loop.induct)
  case (1 deps remaining)
  let ?ready = "filter (\<lambda>n. list_all (\<lambda>d. d \<notin> set remaining) (deps n)) remaining"
  let ?rest = "filter (\<lambda>n. n \<notin> set ?ready) remaining"
  show ?case
  proof (cases "remaining = []")
    case True
    with "1.prems" show ?thesis
      by (simp add: toposort_loop.simps [of deps "[]"])
  next
    case False
    with "1.prems" have ne: "?ready \<noteq> []"
      by (auto simp: toposort_loop.simps [of deps remaining] Let_def split: if_splits)
    with False "1.prems" obtain ls' where
      rec: "toposort_loop deps ?rest = Inr ls'" and ls: "ls = ?ready # ls'"
      by (auto simp: toposort_loop.simps [of deps remaining] Let_def split: if_splits sum.splits)
    from "1.prems" have d: "distinct ?rest" by simp
    from "1.IH" [OF False refl ne rec d] have
      ih: "distinct (concat ls')" "set (concat ls') = set ?rest" "[] \<notin> set ls'" and
      ord: "\<And>j b a. j < length ls' \<Longrightarrow> b \<in> set (ls' ! j) \<Longrightarrow> a \<in> set (deps b) \<Longrightarrow>
              a \<in> set ?rest \<Longrightarrow> \<exists>i<j. a \<in> set (ls' ! i)"
      by blast+
    have 1: "distinct (concat ls)"
      using ih "1.prems" ls by auto
    have 2: "set (concat ls) = set remaining"
      using ih ls by auto
    have 3: "[] \<notin> set ls"
      using ih ne ls by auto
    have 4: "\<exists>i<j. a \<in> set (ls ! i)"
      if j: "j < length ls" and b: "b \<in> set (ls ! j)" and a: "a \<in> set (deps b)"
        and ar: "a \<in> set remaining" for j b a
    proof (cases j)
      case 0
      with b ls have "list_all (\<lambda>d. d \<notin> set remaining) (deps b)" by simp
      with a ar show ?thesis by (simp add: list_all_iff)
    next
      case (Suc j')
      with j b ls have j': "j' < length ls'" "b \<in> set (ls' ! j')" by simp_all
      show ?thesis
      proof (cases "a \<in> set ?ready")
        case True
        with ls Suc show ?thesis by (intro exI [of _ 0]) simp
      next
        case False
        with ar have "a \<in> set ?rest" by simp
        from ord [OF j' a this] obtain i where "i < j'" "a \<in> set (ls' ! i)" by blast
        with ls Suc show ?thesis by (intro exI [of _ "Suc i"]) simp
      qed
    qed
    from 1 2 3 4 show ?thesis by blast
  qed
qed

lemma ready_nonempty:
  assumes "acyclic {(a, b). a \<in> set (deps b)}" and "remaining \<noteq> []"
  shows "filter (\<lambda>n. list_all (\<lambda>d. d \<notin> set remaining) (deps n)) remaining \<noteq> []"
proof -
  let ?r = "{(a, b). a \<in> set (deps b)} \<inter> (set remaining \<times> set remaining)"
  have "finite ?r" by simp
  moreover have "acyclic ?r"
    using assms(1) by (rule acyclic_subset) simp
  ultimately have "wf ?r" by (rule finite_acyclic_wf)
  moreover from assms(2) obtain x where "x \<in> set remaining"
    by (cases remaining) auto
  ultimately obtain z where z: "z \<in> set remaining" and
    m: "\<And>y. (y, z) \<in> ?r \<Longrightarrow> y \<notin> set remaining"
    by (rule wfE_min) blast
  have "list_all (\<lambda>d. d \<notin> set remaining) (deps z)"
    unfolding list_all_iff
  proof
    fix d
    assume "d \<in> set (deps z)"
    with z m [of d] show "d \<notin> set remaining" by auto
  qed
  with z show ?thesis
    by (auto simp: filter_empty_conv)
qed

lemma toposort_loop_complete:
  assumes "acyclic {(a, b). a \<in> set (deps b)}"
  shows "\<exists>ls. toposort_loop deps remaining = Inr ls"
  using assms
proof (induction deps remaining rule: toposort_loop.induct)
  case (1 deps remaining)
  let ?ready = "filter (\<lambda>n. list_all (\<lambda>d. d \<notin> set remaining) (deps n)) remaining"
  show ?case
  proof (cases "remaining = []")
    case True
    then show ?thesis
      by (simp add: toposort_loop.simps [of deps "[]"])
  next
    case False
    from ready_nonempty [OF "1.prems" False] have ne: "?ready \<noteq> []" .
    from "1.IH" [OF False refl ne "1.prems"] obtain ls' where
      "toposort_loop deps (filter (\<lambda>n. n \<notin> set ?ready) remaining) = Inr ls'" ..
    with False ne show ?thesis
      by (simp add: toposort_loop.simps [of deps remaining] Let_def)
  qed
qed

lemma layering_acyclic:
  assumes "\<And>a b. a \<in> set (deps b) \<Longrightarrow> layer_index ls a < layer_index ls b"
  shows "acyclic {(a, b). a \<in> set (deps b)}"
proof -
  have "{(a, b). a \<in> set (deps b)} \<subseteq> measure (layer_index ls)"
    using assms by auto
  then have "wf {(a, b). a \<in> set (deps b)}"
    by (rule wf_subset [OF wf_measure])
  then show ?thesis by (rule wf_acyclic)
qed

lemma prerequisites_in_graph:
  assumes "a \<in> set (prerequisites g b)"
  shows "a \<in> set (graph_nodes g) \<and> b \<in> set (graph_nodes g)"
proof -
  from assms obtain ds where ds: "map_of g b = Some ds" "a \<in> set ds"
    by (cases "map_of g b") (auto simp: prerequisites_def)
  then have "(b, ds) \<in> set g" by (auto dest: map_of_SomeD)
  then have k: "b \<in> fst ` set g" by force
  moreover from ds have "a \<in> set (prerequisites g b)" by (simp add: prerequisites_def)
  ultimately show ?thesis
    by (auto simp: graph_nodes_def)
qed

lemma toposort_order:
  assumes "toposort g = Inr ls" and "a \<in> set (prerequisites g b)"
  shows "layer_index ls a < layer_index ls b"
proof -
  from assms(1) have t: "toposort_loop (prerequisites g) (graph_nodes g) = Inr ls"
    by (simp add: toposort_def)
  have d: "distinct (graph_nodes g)" by (simp add: graph_nodes_def)
  note s = toposort_loop_sound [OF t d]
  from prerequisites_in_graph [OF assms(2)] s have
    ab: "a \<in> set (graph_nodes g)" "b \<in> set (concat ls)" by auto
  from layer_index_mem [OF ab(2)] have
    j: "layer_index ls b < length ls" "b \<in> set (ls ! layer_index ls b)" by auto
  from s j assms(2) ab(1) obtain i where i: "i < layer_index ls b" "a \<in> set (ls ! i)"
    by blast
  with j have "layer_index ls a \<le> i"
    by (intro layer_index_le) auto
  with i show ?thesis by simp
qed

lemma copy_set_id:
  "distinct (acc @ xs) \<Longrightarrow>
   fold (\<lambda>d new_set. if d \<in> set new_set then new_set else new_set @ [d]) xs acc = acc @ xs"
  by (induction xs arbitrary: acc) auto

lemma distinct_concat_layer:
  "distinct (concat ls) \<Longrightarrow> l \<in> set ls \<Longrightarrow> distinct l"
  by (induction ls) auto

lemma init_queue_eq:
  "init_consideration_queue_from_system sys =
     (case toposort (executionGraph sys) of Inl e \<Rightarrow> Inl e | Inr ls \<Rightarrow> Inr ls)"
proof (cases "toposort (executionGraph sys)")
  case (Inl e)
  then show ?thesis by (simp add: init_consideration_queue_from_system_def)
next
  case (Inr ls)
  then have t: "toposort_loop (prerequisites (executionGraph sys)) (graph_nodes (executionGraph sys)) = Inr ls"
    by (simp add: toposort_def)
  have "distinct (graph_nodes (executionGraph sys))" by (simp add: graph_nodes_def)
  from toposort_loop_sound [OF t this] have "distinct (concat ls)" by simp
  then have "map (\<lambda>dependency_set.
      fold (\<lambda>d new_set. if d \<in> set new_set then new_set else new_set @ [d]) dependency_set []) ls = ls"
    by (intro map_idI) (simp add: copy_set_id distinct_concat_layer)
  with Inr show ?thesis by (simp add: init_consideration_queue_from_system_def)
qed

section \<open>Properties\<close>

subsection \<open>Selection of a node updates the counters\<close>

text \<open>C1.  When the scan of \<^verbatim>\<open>run\<close> selects a node X (it passes the two guards and is
  added to the time step), the counters change as follows.  For every TimeScale,
  \<^verbatim>\<open>counts_total[ts][X]\<close> grows by one.  \<^verbatim>\<open>counts_useable\<close> changes in two steps: first the
  cell \<^verbatim>\<open>[n][X]\<close> is set to 0 for every node n, then the cell \<^verbatim>\<open>[X][m]\<close> grows by one for
  every node m, X included.  No other cell of \<^verbatim>\<open>counts_total\<close> or \<^verbatim>\<open>counts_useable\<close>
  changes, and the clocks \<^verbatim>\<open>times\<close> and the node list are untouched.\<close>

theorem selection_updates_counters:
  assumes "consider_node conds X (c, ex, a, b) = Inr (c', ex', a', b')"
    and "ex' \<noteq> ex"
  shows "ex' = ex @ [X] \<and>
    counts_total c' = (\<lambda>ts n. if n = X then counts_total c ts n + 1 else counts_total c ts n) \<and>
    (\<exists>consumed.
       consumed = (\<lambda>n m. if m = X \<and> n \<in> set (nodes c) then 0 else counts_useable c n m) \<and>
       counts_useable c' =
         (\<lambda>n m. if n = X \<and> m \<in> set (nodes c) then consumed n m + 1 else consumed n m)) \<and>
    times c' = times c \<and> nodes c' = nodes c"
proof -
  from assms have
    rec: "record_execution X c = Inr c'" and ex': "ex' = ex @ [X]"
    by (auto split: if_splits option.splits sum.splits)
  have X: "X \<in> set (nodes c)"
    using rec by (rule record_execution_Inr)
  have "counts_total c' = (\<lambda>ts n. if n = X then counts_total c ts n + 1 else counts_total c ts n)"
    by (intro ext) (simp add: record_execution_total [OF rec])
  moreover have "counts_useable c' =
      (\<lambda>n m. if n = X \<and> m \<in> set (nodes c)
          then (if m = X \<and> n \<in> set (nodes c) then 0 else counts_useable c n m) + 1
          else (if m = X \<and> n \<in> set (nodes c) then 0 else counts_useable c n m))"
    using X by (intro ext) (simp add: record_execution_useable [OF rec])
  ultimately show ?thesis
    using ex' record_execution_frame [OF rec] by simp
qed

theorem selection_updates_counters_witness:
  "(case consider_node [0 \<mapsto> Always] (0::nat)
           ((init_counts [0, 1])\<lparr>counts_useable := (\<lambda>n m. 5)\<rparr>, [], False, False) of
      Inl e \<Rightarrow> False
    | Inr (c', ex', a', b') \<Rightarrow>
        ex' = [0] \<and> counts_total c' TRIAL 0 = 1 \<and> counts_total c' TRIAL 1 = 0 \<and>
        counts_useable c' 0 0 = 1 \<and> counts_useable c' 1 0 = 0 \<and>
        counts_useable c' 0 1 = 6 \<and> counts_useable c' 1 1 = 5)"
proof -
  let ?c = "(init_counts [0, 1::nat])\<lparr>counts_useable := (\<lambda>n m. 5)\<rparr>"
  obtain c' a' b' where
    h: "consider_node [0 \<mapsto> Always] 0 (?c, [], False, False) = Inr (c', [0], a', b')"
    by (simp add: record_execution_def init_counts_def)
  have ne: "[0::nat] \<noteq> []" by simp
  from selection_updates_counters [OF h ne] show ?thesis
    unfolding h by (simp add: init_counts_def)
qed

text \<open>C9.  Right after a node X has been selected, \<^verbatim>\<open>counts_useable[X][X]\<close> is 1,
  whatever it was before: the cell is zeroed with the other cells usable by X and then
  receives its unit of X's credit.\<close>

theorem self_credit_is_one:
  assumes "consider_node conds X (c, ex, a, b) = Inr (c', ex', a', b')"
    and "ex' \<noteq> ex"
  shows "counts_useable c' X X = 1"
proof -
  from assms have "record_execution X c = Inr c'"
    by (auto split: if_splits option.splits sum.splits)
  then show ?thesis
    by (simp add: record_execution_useable)
qed

theorem self_credit_is_one_witness:
  "(case consider_node [0 \<mapsto> Always] (0::nat)
           ((init_counts [0, 1])\<lparr>counts_useable := (\<lambda>n m. 7)\<rparr>, [], False, False) of
      Inl e \<Rightarrow> False
    | Inr (c', ex', a', b') \<Rightarrow> ex' = [0] \<and> counts_useable c' 0 0 = 1)"
proof -
  let ?c = "(init_counts [0, 1::nat])\<lparr>counts_useable := (\<lambda>n m. 7)\<rparr>"
  obtain c' a' b' where
    h: "consider_node [0 \<mapsto> Always] 0 (?c, [], False, False) = Inr (c', [0], a', b')"
    by (simp add: record_execution_def init_counts_def)
  have ne: "[0::nat] \<noteq> []" by simp
  from self_credit_is_one [OF h ne] show ?thesis
    unfolding h by simp
qed


subsection \<open>The linear chain\<close>

text \<open>C4.  A Scheduler over the nodes A, B, C with the consideration queue
  \<^verbatim>\<open>[{A}, {B}, {C}]\<close>, \<^verbatim>\<open>EveryNCalls(A, 2)\<close> on B, \<^verbatim>\<open>EveryNCalls(B, 3)\<close> on C, no Condition on
  A (validation binds \<^verbatim>\<open>Always\<close>) and no termination Conditions (validation binds
  \<^verbatim>\<open>AllHaveRun\<close>): \<^verbatim>\<open>run\<close> ends within six PASSes, it yields exactly the ten sets
  A, A, B, A, A, B, A, A, B, C, and it returns the same list.\<close>

theorem chain_schedule:
  "(case Scheduler_init None None (Some [A, B, C]) (Some [[A], [B], [C]]) of
      Inl e \<Rightarrow> None
    | Inr s \<Rightarrow>
        map_option (map_sum id (\<lambda>(s', ys, r). (map set ys, map set r)))
          (run (6 + k) None
             (add_condition C (EveryNCalls B 3) (add_condition B (EveryNCalls A 2) s)))) =
   Some (Inr ([{A}, {A}, {B}, {A}, {A}, {B}, {A}, {A}, {B}, {C}],
              [{A}, {A}, {B}, {A}, {A}, {B}, {A}, {A}, {B}, {C}]))"
proof -
  let ?s = "add_condition C (EveryNCalls B 3) (add_condition B (EveryNCalls A 2)
     \<lparr> condition_set = Map.empty, execution_list = [], consideration_queue = [[A], [B], [C]],
       termination_conds = None, counters = init_counts [A, B, C] \<rparr>)"
  let ?ys = "[[A], [A], [B], [A], [A], [B], [A], [A], [B], [C]]"
  have "\<exists>s'. run 6 None ?s = Some (Inr (s', ?ys, ?ys))"
    by (simp add: run_eval eval_nat_numeral)
  then obtain s' where "run 6 None ?s = Some (Inr (s', ?ys, ?ys))" ..
  from run_fuel_mono [OF this, of k] show ?thesis
    by (simp add: Scheduler_init_def)
qed


subsection \<open>The scan of a consideration set ends\<close>

text \<open>C7.  The do-while over a consideration set is a total function, and it performs at
  most \<open>|layer| + 1\<close> full scans.  When it returns, the time step holds members of the set
  only, each once; the total count of a node has grown by one if the node is in the time
  step and not at all otherwise; and one more scan from the final state would add
  nothing (the fixed point).\<close>

theorem scan_loop_bounded:
  "scan_count conds layer (c, [], elhc) \<le> card (set layer) + 1 \<and>
   (case scan_until_fixed conds layer (c, [], elhc) of
      Inl e \<Rightarrow> True
    | Inr (c', ex', elhc') \<Rightarrow>
        distinct ex' \<and> set ex' \<subseteq> set layer \<and>
        (\<forall>ts n. counts_total c' ts n = counts_total c ts n + (if n \<in> set ex' then 1 else 0)) \<and>
        scan_layer conds layer (c', ex', elhc', False) = Inr (c', ex', elhc', False))"
proof -
  have "scan_count conds layer (c, [], elhc) \<le> card (set layer) + 1"
    using scan_count_bound [of conds layer c "[]" elhc] by simp
  moreover have "distinct ex' \<and> set ex' \<subseteq> set layer \<and>
        (\<forall>ts n. counts_total c' ts n = counts_total c ts n + (if n \<in> set ex' then 1 else 0)) \<and>
        scan_layer conds layer (c', ex', elhc', False) = Inr (c', ex', elhc', False)"
    if "scan_until_fixed conds layer (c, [], elhc) = Inr (c', ex', elhc')" for c' ex' elhc'
  proof -
    from scan_until_fixed_result [OF that] have
      d: "distinct ex'" "set ex' \<subseteq> set layer" and
      cnt: "\<forall>ts n. counts_total c' ts n + count_list [] n = counts_total c ts n + count_list ex' n" and
      fp: "scan_layer conds layer (c', ex', elhc', False) = Inr (c', ex', elhc', False)"
      by auto
    from cnt d show ?thesis
      using fp by (simp add: distinct_count_list)
  qed
  ultimately show ?thesis
    by (auto split: sum.splits)
qed

theorem scan_loop_bounded_witness:
  "scan_count [A \<mapsto> Always, B \<mapsto> EveryNCalls A 1] [B, A] (init_counts [A, B], [], False) = 3 \<and>
   (case scan_until_fixed [A \<mapsto> Always, B \<mapsto> EveryNCalls A 1] [B, A]
           (init_counts [A, B], [], False) of
      Inl e \<Rightarrow> False
    | Inr (c', ex', elhc') \<Rightarrow>
        ex' = [A, B] \<and> counts_total c' PASS A = 1 \<and> counts_total c' PASS B = 1 \<and>
        counts_total c' PASS C = 0)"
proof -
  let ?conds = "[A \<mapsto> Always, B \<mapsto> EveryNCalls A 1]"
  let ?c = "init_counts [A, B]"
  have n: "scan_count ?conds [B, A] (?c, [], False) = 3"
    by (simp add: scan_count.simps init_counts_def record_execution_def node_keys_def
          all_TimeScale_def)
  obtain c' elhc' where
    r: "scan_until_fixed ?conds [B, A] (?c, [], False) = Inr (c', [A, B], elhc')"
    by (simp add: scan_until_fixed.simps init_counts_def record_execution_def node_keys_def
          all_TimeScale_def)
  from scan_loop_bounded [of ?conds "[B, A]" ?c False] show ?thesis
    unfolding r n by (simp add: init_counts_def)
qed


subsection \<open>The empty time step\<close>

text \<open>C3.  In a PASS, the empty set is yielded exactly when the PASS has added no node
  (every node's count at the PASS scale, reset when the PASS began, is still 0).  Such a
  stalled PASS yields the empty set alone and advances the TIME_STEP clocks by one.  A
  PASS that has added a node yields non-empty sets only, one per consideration set that
  contributed.  The statement is about a PASS that ends without an exception.\<close>

theorem stalled_pass_marker:
  assumes "run_pass t s = Inr (s', ys)"
  shows "([] \<in> set ys) = (\<forall>n\<in>set (nodes (counters s)). counts_total (counters s') PASS n = 0) \<and>
    ([] \<in> set ys \<longrightarrow>
       ys = [[]] \<and>
       (\<forall>ts. times (counters s') ts TIME_STEP =
          (if ts = PASS then 0 else times (counters s) ts TIME_STEP) + 1)) \<and>
    ([] \<notin> set ys \<longrightarrow>
       ys \<noteq> [] \<and> (\<forall>y\<in>set ys. y \<noteq> []) \<and>
       (\<exists>n\<in>set (nodes (counters s)). counts_total (counters s') PASS n \<ge> 1))"
proof -
  note r = run_pass_result [OF assms]
  have cnt: "counts_total (counters s') PASS n = count_list (concat ys) n"
    if "n \<in> set (nodes (counters s))" for n
    using r(6) [of PASS n] that by simp
  have stalled: "\<forall>n\<in>set (nodes (counters s)). counts_total (counters s') PASS n = 0"
    if "[] \<in> set ys"
    using r(3) [OF that] cnt by simp
  have added: "\<exists>n\<in>set (nodes (counters s)). counts_total (counters s') PASS n \<ge> 1"
    if "[] \<notin> set ys"
  proof -
    from r(2) that obtain y where y: "y \<in> set ys" "y \<noteq> []"
      by (cases ys) auto
    from y(2) obtain x' where "x' \<in> set y"
      by (cases y) auto
    with y have "\<exists>x. x \<in> set (concat ys)"
      by auto
    then obtain x where x: "x \<in> set (concat ys)" ..
    with r(5) have "x \<in> set (nodes (counters s))" by blast
    moreover from x have "count_list (concat ys) x \<ge> 1"
      by (metis One_nat_def Suc_leI count_list_0_iff neq0_conv)
    ultimately show ?thesis using cnt by auto
  qed
  have tm: "times (counters s') ts TIME_STEP =
          (if ts = PASS then 0 else times (counters s) ts TIME_STEP) + 1"
    if "[] \<in> set ys" for ts
    using r(3) [OF that] r(7) [of ts TIME_STEP] by simp
  show ?thesis
    using stalled added tm r(2) r(3) by (intro conjI impI iffI) (auto dest: stalled)
qed

theorem stalled_pass_marker_witness:
  "(case run_pass (AllHaveRun TRIAL)
           \<lparr> condition_set = [A \<mapsto> Not_cond Always, B \<mapsto> EveryNCalls A 1], execution_list = [[A]],
             consideration_queue = [[A], [B]], termination_conds = None,
             counters = init_counts [A, B] \<rparr> of
      Inl e \<Rightarrow> False
    | Inr (s', ys) \<Rightarrow>
        ys = [[]] \<and> execution_list s' = [[A], []] \<and>
        counts_total (counters s') PASS A = 0 \<and> counts_total (counters s') PASS B = 0 \<and>
        times (counters s') TRIAL TIME_STEP = 1 \<and> times (counters s') PASS TIME_STEP = 1) \<and>
   (case run_pass (AllHaveRun TRIAL)
           \<lparr> condition_set = [A \<mapsto> Always, B \<mapsto> EveryNCalls A 2], execution_list = [],
             consideration_queue = [[A], [B]], termination_conds = None,
             counters = init_counts [A, B] \<rparr> of
      Inl e \<Rightarrow> False
    | Inr (s', ys) \<Rightarrow> ys = [[A]] \<and> counts_total (counters s') PASS A = 1)"
proof -
  let ?s = "\<lparr> condition_set = [A \<mapsto> Not_cond Always, B \<mapsto> EveryNCalls A 1],
             execution_list = [[A]],
             consideration_queue = [[A], [B]], termination_conds = None,
             counters = init_counts [A, B] \<rparr>"
  let ?u = "\<lparr> condition_set = [A \<mapsto> Always, B \<mapsto> EveryNCalls A 2], execution_list = [],
             consideration_queue = [[A], [B]], termination_conds = None,
             counters = init_counts [A, B] \<rparr>"
  obtain s' where h: "run_pass (AllHaveRun TRIAL) ?s = Inr (s', [[]])" and
    el: "execution_list s' = [[A], []]"
    by (simp add: run_eval)
  obtain u' where k: "run_pass (AllHaveRun TRIAL) ?u = Inr (u', [[A]])" and
    ca: "counts_total (counters u') PASS A = 1"
    by (simp add: run_eval)
  from stalled_pass_marker [OF h] el ca show ?thesis
    unfolding h k by (simp add: init_counts_def)
qed


subsection \<open>The execution history across runs\<close>




subsection \<open>Stopping the walk early\<close>

text \<open>When the TRIAL termination Condition holds at a boundary of the walk, the rest of
  the queue is not considered in this PASS: the walk returns at once, with no node
  selected, nothing yielded and the state unchanged.\<close>

lemma walk_stops_when_satisfied:
  "is_satisfied (counters s) None trial_term \<Longrightarrow>
   walk_layers trial_term layers s elhc = Inr (s, [], elhc)"
  by (cases layers) simp_all

text \<open>For a termination Condition that does not read the clocks \<^verbatim>\<open>times\<close>, a walk that
  ends in a state where the Condition holds also ends the trial: the Condition still
  holds after the clocks have advanced at the end of the PASS, so the outer loop stops at
  its next test and no further node is selected.\<close>

lemma trial_ends_clock_free:
  assumes cf: "\<And>c tm. is_satisfied (c\<lparr>times := tm\<rparr>) None trial_term = is_satisfied c None trial_term"
    and p: "run_pass trial_term s = Inr (s', ys)"
    and w: "walk_layers trial_term (consideration_queue s)
              (s\<lparr>counters := reset_time PASS (reset_count PASS (counters s))\<rparr>) False =
            Inr (s2, ys2, b2)"
    and sat: "is_satisfied (counters s2) None trial_term"
  shows "is_satisfied (counters s') None trial_term"
    and "trial_loop fuel trial_term s' = Some (Inr (s', []))"
proof -
  from p w have "\<exists>tm. counters s' = (counters s2)\<lparr>times := tm\<rparr>"
    by (auto simp: run_pass_def Let_def increment_time_def split: if_splits)
  then obtain tm where "counters s' = (counters s2)\<lparr>times := tm\<rparr>" ..
  with cf [where c = "counters s2" and tm = tm] sat show s: "is_satisfied (counters s') None trial_term"
    by simp
  then show "trial_loop fuel trial_term s' = Some (Inr (s', []))"
    by (simp add: trial_loop.simps [of fuel])
qed

text \<open>C8.  The documentation of the module says that at the beginning of each TIME_STEP
  the Scheduler evaluates the termination Conditions and terminates the run if they are
  met, and C8 says that after the TRIAL Condition has held at a layer boundary no further
  node is selected in the trial.  The code does not do so for a Condition that reads the
  clocks.  Two nodes A and B, each alone in its consideration set and bound to
  \<^verbatim>\<open>Always\<close>; the TRIAL ends on
  \<^verbatim>\<open>Any(All(AtPass(0), AfterNCalls(A, 1)), AfterNCalls(B, 1))\<close>.  In the first PASS A is
  selected and the Condition holds at the boundary after its consideration set, so the
  walk stops before B and the PASS yields A only.  The PASS clock then advances before
  the outer loop tests the Condition, which no longer holds there, and the same trial
  goes on to select A and then B in a second PASS: the run yields A, A, B.\<close>

theorem early_stop_failing_run:
  "(case walk_layers (Any_cond [All_cond [AtPass 0, AfterNCalls A 1 TRIAL], AfterNCalls B 1 TRIAL])
           [[A], [B]]
           \<lparr> condition_set = [A \<mapsto> Always, B \<mapsto> Always], execution_list = [],
             consideration_queue = [[A], [B]], termination_conds = None,
             counters = init_counts [A, B] \<rparr> False of
      Inl e \<Rightarrow> False
    | Inr (s2, ys, b) \<Rightarrow>
        ys = [[A]] \<and>
        is_satisfied (counters s2) None
          (Any_cond [All_cond [AtPass 0, AfterNCalls A 1 TRIAL], AfterNCalls B 1 TRIAL])) \<and>
   (case run_pass (Any_cond [All_cond [AtPass 0, AfterNCalls A 1 TRIAL], AfterNCalls B 1 TRIAL])
           \<lparr> condition_set = [A \<mapsto> Always, B \<mapsto> Always], execution_list = [],
             consideration_queue = [[A], [B]], termination_conds = None,
             counters = init_counts [A, B] \<rparr> of
      Inl e \<Rightarrow> False
    | Inr (s1, ys) \<Rightarrow>
        ys = [[A]] \<and>
        \<not> is_satisfied (counters s1) None
          (Any_cond [All_cond [AtPass 0, AfterNCalls A 1 TRIAL], AfterNCalls B 1 TRIAL])) \<and>
   map_option (map_sum id (\<lambda>(s', ys, ret). ys))
     (run 2 (Some [TRIAL \<mapsto> Some (Any_cond [All_cond [AtPass 0, AfterNCalls A 1 TRIAL],
                                                AfterNCalls B 1 TRIAL])])
        \<lparr> condition_set = [A \<mapsto> Always, B \<mapsto> Always], execution_list = [],
          consideration_queue = [[A], [B]], termination_conds = None,
          counters = init_counts [A, B] \<rparr>) =
   Some (Inr [[A], [A], [B]])"
  by (simp add: run_eval eval_nat_numeral)


subsection \<open>Validation of the termination Conditions\<close>

text \<open>C2, as claimed, fails.  With no dict of termination Conditions, validation raises
  nothing and binds \<^verbatim>\<open>AllHaveRun\<close> to the TRIAL too; with a dict whose PASS entry is
  \<^verbatim>\<open>None\<close>, validation leaves that entry \<^verbatim>\<open>None\<close>.\<close>

theorem termination_validation_counterexample:
  "(case validate_termination
           \<lparr> condition_set = Map.empty, execution_list = [], consideration_queue = [[A]],
             termination_conds = None, counters = init_counts [A] \<rparr> of
      Inl e \<Rightarrow> False
    | Inr s' \<Rightarrow> Option.bind (termination_conds s') (\<lambda>d. d TRIAL) = Some (Some (AllHaveRun TRIAL))) \<and>
   (case validate_termination
           \<lparr> condition_set = Map.empty, execution_list = [], consideration_queue = [[A]],
             termination_conds = Some [PASS \<mapsto> None, TRIAL \<mapsto> Some Always],
             counters = init_counts [A] \<rparr> of
      Inl e \<Rightarrow> False
    | Inr s' \<Rightarrow> Option.bind (termination_conds s') (\<lambda>d. d PASS) = Some None)"
  by (simp add: validate_termination_def all_TimeScale_def)


text \<open>C2, amended.  Without a dict, every TimeScale, the TRIAL included, is bound to
  \<^verbatim>\<open>AllHaveRun\<close> and nothing is raised.  With a dict, \<^verbatim>\<open>SchedulerError\<close> is raised exactly
  when its TRIAL entry is \<^verbatim>\<open>None\<close>, and otherwise the dict is kept as it is: an entry
  \<^verbatim>\<open>None\<close> of another TimeScale stays \<^verbatim>\<open>None\<close>.\<close>

theorem termination_validation:
  "validate_termination s =
     (case termination_conds s of
        None \<Rightarrow> Inr (s\<lparr>termination_conds := Some (\<lambda>ts. Some (Some (AllHaveRun TRIAL)))\<rparr>)
      | Some d \<Rightarrow>
          if d TRIAL = Some None then Inl SchedulerError
          else Inr (s\<lparr>termination_conds := Some d\<rparr>))"
  by (auto simp: validate_termination_def validate_termination_loop_eq all_TimeScale_complete
        split: option.splits)


subsection \<open>The consideration queue of a System\<close>

text \<open>C5.  For an acyclic dependency graph (no node reaches itself along prerequisite
  edges), the construction of a Scheduler from a System succeeds, and its consideration
  queue is a list of non-empty, pairwise disjoint layers that partition the nodes of the
  graph: every node is in exactly one layer, and for every edge from a prerequisite a to
  its dependent b the layer index of a is strictly less than that of b.\<close>

theorem layering_correct:
  assumes "acyclic {(a, b). a \<in> set (prerequisites (executionGraph sys) b)}"
  shows "\<exists>s. Scheduler_init (Some sys) cset ns tord = Inr s \<and>
    distinct (concat (consideration_queue s)) \<and>
    set (concat (consideration_queue s)) = set (graph_nodes (executionGraph sys)) \<and>
    [] \<notin> set (consideration_queue s) \<and>
    (\<forall>n\<in>set (graph_nodes (executionGraph sys)).
        \<exists>!i. i < length (consideration_queue s) \<and> n \<in> set (consideration_queue s ! i)) \<and>
    (\<forall>a b. a \<in> set (prerequisites (executionGraph sys) b) \<longrightarrow>
        layer_index (consideration_queue s) a < layer_index (consideration_queue s) b)"
proof -
  let ?g = "executionGraph sys"
  from toposort_loop_complete [OF assms, of "graph_nodes ?g"] obtain ls where
    t: "toposort_loop (prerequisites ?g) (graph_nodes ?g) = Inr ls" ..
  then have tg: "toposort ?g = Inr ls" by (simp add: toposort_def)
  have d: "distinct (graph_nodes ?g)" by (simp add: graph_nodes_def)
  from toposort_loop_sound [OF t d] have
    p: "distinct (concat ls)" "set (concat ls) = set (graph_nodes ?g)" "[] \<notin> set ls"
    by simp_all
  have u: "\<exists>!i. i < length ls \<and> n \<in> set (ls ! i)" if "n \<in> set (graph_nodes ?g)" for n
  proof -
    from that p have "n \<in> set (concat ls)" by simp
    from layer_index_mem [OF this] show ?thesis
      using distinct_concat_unique [OF p(1)] by blast
  qed
  obtain s where s: "Scheduler_init (Some sys) cset ns tord = Inr s" "consideration_queue s = ls"
    using tg by (simp add: Scheduler_init_def init_queue_eq)
  with p u toposort_order [OF tg] show ?thesis
    by auto
qed

theorem layering_correct_witness:
  "(case Scheduler_init
           (Some \<lparr> executionList = [A, B, C], executionGraph = [(C, [B]), (A, []), (B, [A])] \<rparr>)
           None None None of
      Inl e \<Rightarrow> False
    | Inr s \<Rightarrow>
        consideration_queue s = [[A], [B], [C]] \<and>
        layer_index (consideration_queue s) A < layer_index (consideration_queue s) B \<and>
        layer_index (consideration_queue s) B < layer_index (consideration_queue s) C)"
proof -
  let ?sys = "\<lparr> executionList = [A, B, C], executionGraph = [(C, [B]), (A, []), (B, [A])] \<rparr>"
  have "{(a, b). a \<in> set (prerequisites (executionGraph ?sys) b)}
          \<subseteq> measure (\<lambda>n. case n of A \<Rightarrow> 0 | B \<Rightarrow> 1 | C \<Rightarrow> 2)"
    by (auto simp: prerequisites_def split: node.splits if_splits)
  then have "wf {(a, b). a \<in> set (prerequisites (executionGraph ?sys) b)}"
    by (rule wf_subset [OF wf_measure])
  then have ac: "acyclic {(a, b). a \<in> set (prerequisites (executionGraph ?sys) b)}"
    by (rule wf_acyclic)
  from layering_correct [OF ac, of None None None] obtain s where
    s: "Scheduler_init (Some ?sys) None None None = Inr s"
    and o: "\<forall>a b. a \<in> set (prerequisites (executionGraph ?sys) b) \<longrightarrow>
        layer_index (consideration_queue s) a < layer_index (consideration_queue s) b"
    by blast
  have q: "consideration_queue s = [[A], [B], [C]]"
    using s by (auto simp: Scheduler_init_def init_consideration_queue_from_system_def
        toposort_def graph_nodes_def prerequisites_def toposort_loop.simps)
  from o have "layer_index (consideration_queue s) A < layer_index (consideration_queue s) B"
    "layer_index (consideration_queue s) B < layer_index (consideration_queue s) C"
    by (simp_all add: prerequisites_def)
  with q show ?thesis
    unfolding s by simp
qed


text \<open>C6.  For a dependency graph with a cycle, building the consideration queue raises
  \<^verbatim>\<open>CyclicGraphError\<close>; the exception leaves \<^verbatim>\<open>__init__\<close>, so there is no Scheduler and no
  queue, partial or other.\<close>

theorem cycle_detected:
  assumes "\<not> acyclic {(a, b). a \<in> set (prerequisites (executionGraph sys) b)}"
  shows "init_consideration_queue_from_system sys = Inl CyclicGraphError \<and>
         Scheduler_init (Some sys) cset ns tord = Inl CyclicGraphError"
proof -
  let ?g = "executionGraph sys"
  have "toposort ?g = Inl CyclicGraphError"
  proof (cases "toposort ?g")
    case (Inl e)
    then show ?thesis
      using toposort_loop_error [of "prerequisites ?g" "graph_nodes ?g" e]
      by (simp add: toposort_def)
  next
    case (Inr ls)
    from layering_acyclic [of "prerequisites ?g" ls] toposort_order [OF Inr] assms
    show ?thesis by blast
  qed
  then show ?thesis
    by (simp add: Scheduler_init_def init_queue_eq)
qed

theorem cycle_detected_witness:
  "Scheduler_init
     (Some \<lparr> executionList = [A, B, C], executionGraph = [(A, []), (B, [C]), (C, [B])] \<rparr>)
     None None None = Inl CyclicGraphError"
proof -
  let ?sys = "\<lparr> executionList = [A, B, C], executionGraph = [(A, []), (B, [C]), (C, [B])] \<rparr>"
  let ?r = "{(a, b). a \<in> set (prerequisites (executionGraph ?sys) b)}"
  have "(B, C) \<in> ?r" "(C, B) \<in> ?r"
    by (simp_all add: prerequisites_def)
  then have "(B, B) \<in> ?r\<^sup>+"
    by (meson trancl.simps)
  then have "\<not> acyclic ?r"
    by (auto simp: acyclic_def)
  from cycle_detected [OF this, of None None None] show ?thesis
    by simp
qed

end
